theory Spec2Isabelle
  imports Complex_Main "HOL-Library.Word"
begin

unbundle bit_operations_syntax

section \<open>Data model\<close>

text \<open>
  Go's \<open>int\<close> and \<open>uint\<close> are modelled at 64 bits (the width on the reference
  system): a \<open>64 word\<close>, read with \<open>sint\<close> where the source uses it as \<open>int\<close>
  (comparisons \<open><s\<close>, \<open>\<le>s\<close>, arithmetic shift \<open>signed_drop_bit\<close>) and with
  \<open>unat\<close> where the source converts it to \<open>uint\<close>. The conversions \<open>uint(x)\<close>
  and \<open>int(x)\<close> keep the bit pattern, so they are the identity on the word.
  \<open>*big.Int\<close> values are \<open>int\<close>.
\<close>

type_synonym go_int = "64 word"
type_synonym go_uint = "64 word"
type_synonym int64 = "64 word"

text \<open>\<open>fibonacciTable\<close>: the static \<open>[]int64\<close> of \<open>fibonacci.go\<close>, lines 9 to 28.\<close>

definition fibonacciTable :: "int64 list" where
  "fibonacciTable = [
    0,
    1, 1, 2, 3, 5, 8, 13, 21, 34, 55, 89, 144, 233, 377, 610, 987, 1597,
    2584, 4181, 6765, 10946, 17711, 28657, 46368, 75025, 121393, 196418,
    317811, 514229, 832040, 1346269, 2178309, 3524578, 5702887, 9227465,
    14930352, 24157817, 39088169, 63245986, 102334155, 165580141,
    267914296, 433494437, 701408733, 1134903170, 1836311903, 2971215073,
    4807526976, 7778742049, 12586269025, 20365011074, 32951280099,
    53316291173, 86267571272, 139583862445, 225851433717, 365435296162,
    591286729879, 956722026041, 1548008755920, 2504730781961, 4052739537881,
    6557470319842, 10610209857723, 17167680177565, 27777890035288,
    44945570212853, 72723460248141, 117669030460994, 190392490709135,
    308061521170129, 498454011879264, 806515533049393, 1304969544928657,
    2111485077978050, 3416454622906707, 5527939700884757, 8944394323791464,
    14472334024676221, 23416728348467685, 37889062373143906,
    61305790721611591, 99194853094755497, 160500643816367088,
    259695496911122585, 420196140727489673, 679891637638612258,
    1100087778366101931, 1779979416004714189, 2880067194370816120,
    4660046610375530309, 7540113804746346429]"

section \<open>The bit-length helper\<close>

text \<open>
  \<open>log2\<close>: \<open>for n>>uint(bits+1) != 0 { bits++ }\<close>. The shift of the signed \<open>n\<close> is
  arithmetic and its count is the unsigned reading of \<open>bits+1\<close>. The loop need not
  end, so the model is a partial function: \<open>None\<close> stands for a loop that runs forever.
\<close>

partial_function (option) log2_loop :: "go_int \<Rightarrow> go_int \<Rightarrow> go_int option" where
  "log2_loop n bits =
     (if signed_drop_bit (unat (bits + 1)) n \<noteq> 0 then log2_loop n (bits + 1)
      else Some bits)"

declare log2_loop.simps [code]

definition log2 :: "go_int \<Rightarrow> go_int option" where
  "log2 n = log2_loop n 0"

section \<open>The linear series evaluator\<close>

text \<open>
  \<open>fibSeries\<close>: the loop \<open>for i := 0; i < n; i++ { a, b = b, a.Add(a, b) }\<close>.
  \<open>a.Add(a, b)\<close> stores \<open>a + b\<close> in the object of \<open>a\<close> and yields that object, which
  becomes the new \<open>b\<close>; the old object of \<open>b\<close> becomes the new \<open>a\<close>.
\<close>

function fibSeries_loop :: "go_int \<Rightarrow> go_int \<Rightarrow> int \<Rightarrow> int \<Rightarrow> int" where
  "fibSeries_loop n i a b =
     (if i <s n then fibSeries_loop n (i + 1) b (a + b) else a)"
  by pat_completeness auto

lemma sint_succ_below:
  fixes i n :: go_int
  assumes "i <s n"
  shows "sint (i + 1) = sint i + 1"
proof -
  have "sint n < 2 ^ 63"
    using sint_lt [of n] by simp
  with assms have "sint i + 1 < 2 ^ 63"
    by (simp add: word_sless_alt)
  moreover have "- (2 ^ 63) \<le> sint i + 1"
    using sint_ge [of i] by simp
  ultimately show ?thesis
    by (simp add: sint_word_ariths signed_take_bit_int_eq_self)
qed

termination fibSeries_loop
proof (relation "measure (\<lambda>(n, i, a, b). nat (sint n - sint i))")
  show "wf (measure (\<lambda>(n, i, a, b). nat (sint n - sint i)))"
    by simp
next
  fix n i :: go_int and a b :: int
  assume "i <s n"
  then show "((n, i + 1, b, a + b), (n, i, a, b))
      \<in> measure (\<lambda>(n, i, a, b). nat (sint n - sint i))"
    using sint_succ_below [of i n] by (simp add: word_sless_alt)
qed

declare fibSeries_loop.simps [simp del]

definition fibSeries :: "go_int \<Rightarrow> int" where
  "fibSeries n = (if n <s 1 then 0 else fibSeries_loop n 0 0 1)"

section \<open>The bit-scanning identity evaluator\<close>

text \<open>
  The body of the loop of \<open>fibBlenkinsop\<close>, one \<open>big.Int\<close> method call per binding,
  in the order in which the source makes the calls. The three objects \<open>f1\<close>, \<open>f2\<close>,
  \<open>f3\<close> are distinct; the last statement of the else branch swaps the names \<open>f2\<close>
  and \<open>f3\<close>. The result is the triple of the values named \<open>f1\<close>, \<open>f2\<close>, \<open>f3\<close> after
  the body.
\<close>

definition blenk_body :: "go_int \<Rightarrow> go_uint \<Rightarrow> int \<Rightarrow> int \<Rightarrow> int \<Rightarrow> int \<times> int \<times> int" where
  "blenk_body n h f1 f2 f3 =
     (let f3 = f1 + f2 in
      if signed_drop_bit (unat (h - 1)) n AND 1 = 1 then
        let f1 = f1 + f3;
            f1 = f1 * f2;
            f2 = f2 * f2;
            f3 = f3 * f3;
            f2 = f2 + f3
        in (f1, f2, f3)
      else
        let f3 = f1 + f3;
            f3 = f3 * f2;
            f1 = f1 * f1;
            f2 = f2 * f2;
            f1 = f1 + f2
        in (f1, f3, f2))"

text \<open>One turn of \<open>for ; h > 0; h-- { ... }\<close>: the body, then the post statement.\<close>

fun blenk_step :: "go_int \<Rightarrow> go_uint \<times> int \<times> int \<times> int \<Rightarrow> go_uint \<times> int \<times> int \<times> int" where
  "blenk_step n (h, f1, f2, f3) =
     (case blenk_body n h f1 f2 f3 of (f1', f2', f3') \<Rightarrow> (h - 1, f1', f2', f3'))"

function blenk_loop :: "go_int \<Rightarrow> go_uint \<times> int \<times> int \<times> int \<Rightarrow> go_uint \<times> int \<times> int \<times> int" where
  "blenk_loop n (h, f1, f2, f3) =
     (if 0 < h then blenk_loop n (blenk_step n (h, f1, f2, f3)) else (h, f1, f2, f3))"
  by pat_completeness auto

termination blenk_loop
proof (relation "measure (\<lambda>(n, h, f1, f2, f3). unat h)")
  show "wf (measure (\<lambda>(n, h, f1, f2, f3). unat h))"
    by simp
next
  fix n :: go_int and h :: go_uint and f1 f2 f3 :: int
  assume "0 < h"
  then have "unat (h - 1) < unat h"
    by (simp add: unat_minus_one word_neq_0_conv [symmetric] unat_gt_0)
  then show "((n, blenk_step n (h, f1, f2, f3)), (n, h, f1, f2, f3))
      \<in> measure (\<lambda>(n, h, f1, f2, f3). unat h)"
    by (simp split: prod.splits)
qed

declare blenk_loop.simps [simp del]

definition fibBlenkinsop :: "go_int \<Rightarrow> int option" where
  "fibBlenkinsop n =
     (if n <s 1 then Some 0
      else case log2 n of
        None \<Rightarrow> None
      | Some h \<Rightarrow> (case blenk_loop n (h, 0, 1, 0) of (h', f1, f2, f3) \<Rightarrow> Some f2))"

section \<open>The Lucas-sequence evaluator\<close>

definition c2 :: int where "c2 = 2"
definition c3 :: int where "c3 = 3"
definition c5 :: int where "c5 = 5"

text \<open>
  The body of the loop of \<open>fibTakahashi\<close>, one \<open>big.Int\<close> method call per binding.
  \<open>Rsh\<close> by one is \<open>drop_bit 1\<close> (it rounds towards minus infinity, as \<open>big.Int\<close>
  does on negative values), \<open>Lsh\<close> by one is \<open>push_bit 1\<close>. The state is
  \<open>(msk, f, l, sign, t1, t2)\<close>, with \<open>msk\<close> the variable \<open>mask\<close> of the source;
  \<open>mask >>= 1\<close> is the last statement of the body.
\<close>

type_synonym tak_state = "go_int \<times> int \<times> int \<times> int \<times> int \<times> int"

fun tak_body :: "go_int \<Rightarrow> tak_state \<Rightarrow> tak_state" where
  "tak_body n (msk, f, l, sign, t1, t2) =
     (let t1 = f * f;
          f = f + l;
          f = drop_bit 1 f;
          f = f * f;
          f = push_bit 1 f;
          t2 = t1 * c3;
          f = f - t2;
          t2 = sign * c2;
          f = f - t2;
          l = t1 * c5;
          t2 = sign * c2;
          l = l + t2;
          sign = 1
      in if n AND msk \<noteq> 0 then
           let t1 = f;
               f = f + l;
               f = drop_bit 1 f;
               t1 = push_bit 1 t1;
               l = f + t1;
               sign = - 1
           in (signed_drop_bit 1 msk, f, l, sign, t1, t2)
         else (signed_drop_bit 1 msk, f, l, sign, t1, t2))"

text \<open>\<open>for i := 1; i < bits; i++ { ... }\<close>\<close>

function tak_loop :: "go_int \<Rightarrow> go_int \<Rightarrow> go_int \<Rightarrow> tak_state \<Rightarrow> tak_state" where
  "tak_loop n bits i s =
     (if i <s bits then tak_loop n bits (i + 1) (tak_body n s) else s)"
  by pat_completeness auto

termination tak_loop
proof (relation "measure (\<lambda>(n, bits, i, s). nat (sint bits - sint i))")
  show "wf (measure (\<lambda>(n, bits, i, s). nat (sint bits - sint i)))"
    by simp
next
  fix n bits i :: go_int and s :: tak_state
  assume "i <s bits"
  then show "((n, bits, i + 1, tak_body n s), (n, bits, i, s))
      \<in> measure (\<lambda>(n, bits, i, s). nat (sint bits - sint i))"
    using sint_succ_below [of i bits] by (simp add: word_sless_alt)
qed

declare tak_loop.simps [simp del]

text \<open>The combination step after the loop (source lines 144 to 151).\<close>

fun tak_final :: "go_int \<Rightarrow> tak_state \<Rightarrow> int" where
  "tak_final n (msk, f, l, sign, t1, t2) =
     (if n AND msk = 0 then
        let f = f * l in f
      else
        let f = f + l;
            f = drop_bit 1 f;
            f = f * l;
            f = f - sign
        in f)"

definition fibTakahashi :: "go_int \<Rightarrow> int option" where
  "fibTakahashi n =
     (if n \<le>s 0 then Some 0
      else if n \<le>s 2 then Some 1
      else case log2 n of
        None \<Rightarrow> None
      | Some bits \<Rightarrow>
          Some (tak_final n
            (tak_loop n bits 1 (push_bit (unat (bits - 1)) 1, 1, 1, - 1, 0, 0))))"

section \<open>The dispatcher\<close>

text \<open>
  \<open>Fibonacci\<close>: the \<open>switch\<close> of the source, case by case. \<open>len(fibonacciTable)\<close> is
  an \<open>int\<close>; the table entry, an \<open>int64\<close>, is widened by \<open>big.NewInt\<close>. The index
  \<open>n\<close> is in range in the second case (\<open>1 \<le> n < len\<close>), so the read cannot panic.
\<close>

definition Fibonacci :: "go_int \<Rightarrow> int option" where
  "Fibonacci n =
     (if n <s 1 then Some 0
      else if n <s word_of_nat (length fibonacciTable) then Some (sint (fibonacciTable ! unat n))
      else if n \<le>s 100 then Some (fibSeries n)
      else if n \<le>s 5504 then fibBlenkinsop n
      else fibTakahashi n)"

section \<open>The evaluators and the dispatcher with their callees as parameters\<close>

text \<open>
  The two bit-scanning evaluators and the dispatcher once more, word for word, with the
  helper they call as the parameter \<open>lg\<close> in place of \<open>log2\<close>. At \<open>lg = log2\<close> they
  are the functions above (lemma \<open>with_log2\<close>). They serve to say at which arguments
  the helper is called: a result that is the same for any two helpers that agree on a set
  of arguments does not depend on a call outside that set.
\<close>

definition fibBlenkinsop_with :: "(go_int \<Rightarrow> go_int option) \<Rightarrow> go_int \<Rightarrow> int option" where
  "fibBlenkinsop_with lg n =
     (if n <s 1 then Some 0
      else case lg n of
        None \<Rightarrow> None
      | Some h \<Rightarrow> (case blenk_loop n (h, 0, 1, 0) of (h', f1, f2, f3) \<Rightarrow> Some f2))"

definition fibTakahashi_with :: "(go_int \<Rightarrow> go_int option) \<Rightarrow> go_int \<Rightarrow> int option" where
  "fibTakahashi_with lg n =
     (if n \<le>s 0 then Some 0
      else if n \<le>s 2 then Some 1
      else case lg n of
        None \<Rightarrow> None
      | Some bits \<Rightarrow>
          Some (tak_final n
            (tak_loop n bits 1 (push_bit (unat (bits - 1)) 1, 1, 1, - 1, 0, 0))))"

definition Fibonacci_with :: "(go_int \<Rightarrow> go_int option) \<Rightarrow> go_int \<Rightarrow> int option" where
  "Fibonacci_with lg n =
     (if n <s 1 then Some 0
      else if n <s word_of_nat (length fibonacciTable) then Some (sint (fibonacciTable ! unat n))
      else if n \<le>s 100 then Some (fibSeries n)
      else if n \<le>s 5504 then fibBlenkinsop_with lg n
      else fibTakahashi_with lg n)"

text \<open>
  The dispatcher with everything it selects among as parameters: the table \<open>tbl\<close> and
  the three evaluators \<open>ser\<close>, \<open>ble\<close>, \<open>tak\<close>. It is the \<open>switch\<close> of \<open>Fibonacci\<close>
  word for word, and at the table and the evaluators of the source it is \<open>Fibonacci\<close>
  (lemma \<open>Fibonacci_by_source\<close>). A result stated for arbitrary parameters says which
  of them the dispatcher reads or calls at a given \<open>n\<close>, not only which value comes out.
\<close>

definition Fibonacci_by ::
  "int64 list \<Rightarrow> (go_int \<Rightarrow> int) \<Rightarrow> (go_int \<Rightarrow> int option) \<Rightarrow> (go_int \<Rightarrow> int option)
    \<Rightarrow> go_int \<Rightarrow> int option" where
  "Fibonacci_by tbl ser ble tak n =
     (if n <s 1 then Some 0
      else if n <s word_of_nat (length tbl) then Some (sint (tbl ! unat n))
      else if n \<le>s 100 then Some (ser n)
      else if n \<le>s 5504 then ble n
      else tak n)"

section \<open>The Fibonacci numbers of the specification\<close>

text \<open>
  The sequence as the specification words it: \<open>F(0) = 0\<close>, \<open>F(1) = 1\<close>,
  \<open>F(n) = F(n-1) + F(n-2)\<close> for \<open>n \<ge> 2\<close>.
\<close>

fun F_spec :: "nat \<Rightarrow> int" where
  "F_spec 0 = 0"
| "F_spec (Suc 0) = 1"
| "F_spec (Suc (Suc n)) = F_spec (Suc n) + F_spec n"

text \<open>
  The linear evaluator as the specification words it: start from the pair \<open>(0, 1)\<close>,
  replace \<open>(a, b)\<close> by \<open>(b, a + b)\<close> \<open>n\<close> times, return the first component.
\<close>

definition series_step :: "int \<times> int \<Rightarrow> int \<times> int" where
  "series_step = (\<lambda>(a, b). (b, a + b))"

definition series_spec :: "nat \<Rightarrow> int" where
  "series_spec n = fst ((series_step ^^ n) (0, 1))"

text \<open>
  The companion Lucas numbers \<open>L(k) = 2 F(k+1) - F(k)\<close>, used to state the invariant of
  the Lucas-sequence evaluator.
\<close>

definition L_spec :: "nat \<Rightarrow> int" where
  "L_spec k = 2 * F_spec (Suc k) - F_spec k"

text \<open>\<open>floor(log2(N))\<close>, the position of the most significant set bit of \<open>N > 0\<close>.\<close>

definition msb_pos :: "nat \<Rightarrow> nat" where
  "msb_pos N = nat \<lfloor>log 2 (real N)\<rfloor>"

text \<open>
  The first \<open>k\<close> terms of the additive sequence that starts with \<open>a\<close>, \<open>b\<close>; it
  lists the Fibonacci numbers in linear time, for the comparison with the table.
\<close>

fun F_list :: "nat \<Rightarrow> int \<Rightarrow> int \<Rightarrow> int list" where
  "F_list 0 a b = []"
| "F_list (Suc k) a b = a # F_list k b (a + b)"

section \<open>Identities of the Fibonacci and Lucas numbers\<close>

lemma F_spec_add:
  "F_spec (Suc (n + m)) = F_spec (Suc n) * F_spec (Suc m) + F_spec n * F_spec m"
  by (induction n rule: F_spec.induct) (simp_all add: algebra_simps)

lemma F_spec_odd:
  "F_spec (Suc (2 * j)) = F_spec j * F_spec j + F_spec (Suc j) * F_spec (Suc j)"
  using F_spec_add [of j j] by (simp add: mult_2)

lemma F_spec_even:
  "F_spec (2 * Suc j) = (F_spec j + (F_spec j + F_spec (Suc j))) * F_spec (Suc j)"
proof -
  have "2 * Suc j = Suc (Suc j + j)"
    by simp
  then have "F_spec (2 * Suc j) = F_spec (Suc (Suc j + j))"
    by (rule arg_cong)
  also have "\<dots> = F_spec (Suc (Suc j)) * F_spec (Suc j) + F_spec (Suc j) * F_spec j"
    by (rule F_spec_add)
  also have "\<dots> = (F_spec j + (F_spec j + F_spec (Suc j))) * F_spec (Suc j)"
    by (simp add: algebra_simps)
  finally show ?thesis .
qed

lemma F_spec_cassini:
  "F_spec (Suc k) * F_spec (Suc k) - F_spec (Suc k) * F_spec k - F_spec k * F_spec k = (- 1) ^ k"
  by (induction k) (simp_all add: algebra_simps)

lemma F_spec_double: "F_spec (2 * k) = F_spec k * L_spec k"
proof (cases k)
  case 0
  then show ?thesis by simp
next
  case (Suc j)
  have "F_spec (2 * Suc j) = F_spec (Suc j) * L_spec (Suc j)"
    unfolding F_spec_even L_spec_def by (simp add: algebra_simps)
  with Suc show ?thesis by simp
qed

lemma half_F_L: "drop_bit 1 (F_spec k + L_spec k) = F_spec (Suc k)"
  by (simp add: L_spec_def drop_bit_Suc)

lemma tak_F_double:
  "push_bit 1 (F_spec (Suc k) * F_spec (Suc k)) - F_spec k * F_spec k * 3 - (- 1) ^ k * 2
     = F_spec (2 * k)"
proof -
  define a b where "a = F_spec k" and "b = F_spec (Suc k)"
  have c: "(- 1) ^ k = b * b - b * a - a * a"
    using F_spec_cassini [of k] by (simp add: a_def b_def)
  have d: "F_spec (2 * k) = a * (2 * b - a)"
    by (simp only: F_spec_double L_spec_def a_def b_def)
  show ?thesis
    unfolding d c a_def [symmetric] b_def [symmetric] by (simp add: algebra_simps)
qed

lemma tak_L_double:
  "F_spec k * F_spec k * 5 + (- 1) ^ k * 2 = L_spec (2 * k)"
proof -
  define a b where "a = F_spec k" and "b = F_spec (Suc k)"
  have c: "(- 1) ^ k = b * b - b * a - a * a"
    using F_spec_cassini [of k] by (simp add: a_def b_def)
  have d: "F_spec (2 * k) = a * (2 * b - a)"
    by (simp only: F_spec_double L_spec_def a_def b_def)
  have e: "F_spec (Suc (2 * k)) = a * a + b * b"
    by (simp only: F_spec_odd a_def b_def)
  have "L_spec (2 * k) = 2 * (a * a + b * b) - a * (2 * b - a)"
    by (simp only: L_spec_def [of "2 * k"] d e)
  then show ?thesis
    unfolding c a_def [symmetric] b_def [symmetric] by (simp add: algebra_simps)
qed

lemma tak_L_odd:
  "F_spec (Suc (2 * k)) + push_bit 1 (F_spec (2 * k)) = L_spec (Suc (2 * k))"
  by (simp add: L_spec_def)

lemma tak_final_odd:
  "F_spec (Suc k) * L_spec k - (- 1) ^ k = F_spec (Suc (2 * k))"
proof -
  define a b where "a = F_spec k" and "b = F_spec (Suc k)"
  have c: "(- 1) ^ k = b * b - b * a - a * a"
    using F_spec_cassini [of k] by (simp add: a_def b_def)
  have e: "F_spec (Suc (2 * k)) = a * a + b * b"
    by (simp only: F_spec_odd a_def b_def)
  show ?thesis
    unfolding e c L_spec_def a_def [symmetric] b_def [symmetric] by (simp add: algebra_simps)
qed

section \<open>Facts about 64-bit words\<close>

lemma pos_sint:
  fixes n :: go_int
  assumes "1 \<le>s n"
  shows "sint n = int (unat n)" and "0 < unat n" and "unat n < 2 ^ 63"
proof -
  from assms have p: "0 < sint n"
    by (simp add: word_sle_eq)
  have q: "sint n < 2 ^ 63"
    using sint_lt [of n] by simp
  have "uint n = take_bit 64 (sint n)"
    using uint_sint [of n] by simp
  also have "\<dots> = sint n"
    using p q by (simp add: take_bit_int_eq_self)
  finally show e: "sint n = int (unat n)"
    by simp
  from p e show "0 < unat n"
    by linarith
  from e q have "int (unat n) < int (2 ^ 63)"
    by (simp only: of_nat_power of_nat_numeral)
  then show "unat n < 2 ^ 63"
    by (simp only: of_nat_less_iff)
qed

lemma top_clear:
  fixes n :: go_int
  assumes "1 \<le>s n"
  shows "\<not> bit n 63"
  using assms bit_last_iff [of n] by (simp add: word_sle_eq)

lemma unat_of_nat_small:
  "k < 2 ^ 64 \<Longrightarrow> unat (word_of_nat k :: go_int) = k"
  by (simp add: unsigned_of_nat take_bit_nat_eq_self)

lemma sint_of_nat_small:
  "k < 2 ^ 63 \<Longrightarrow> sint (word_of_nat k :: go_int) = int k"
  by (simp add: signed_of_nat signed_take_bit_int_eq_self)

lemma signed_shift_pos:
  fixes n :: go_int
  assumes "1 \<le>s n"
  shows "unat (signed_drop_bit k n) = unat n div 2 ^ k"
proof -
  have "signed_drop_bit k n = drop_bit k n"
    using top_clear [OF assms]
    by (intro bit_word_eqI) (auto simp add: bit_simps dest: bit_imp_le_length)
  then have "unat (signed_drop_bit k n) = drop_bit k (unat n)"
    by (simp only: unat_drop_bit_eq)
  then show ?thesis
    by (simp only: drop_bit_eq_div)
qed

lemma shift_nonzero_iff:
  fixes n :: go_int
  assumes "1 \<le>s n"
  shows "signed_drop_bit k n \<noteq> 0 \<longleftrightarrow> 2 ^ k \<le> unat n"
proof -
  have "signed_drop_bit k n = 0 \<longleftrightarrow> unat (signed_drop_bit k n) = 0"
    by (simp add: unsigned_eq_0_iff)
  also have "\<dots> \<longleftrightarrow> unat n < 2 ^ k"
    by (simp add: signed_shift_pos [OF assms] div_eq_0_iff)
  finally show ?thesis
    by auto
qed

lemma and_1_iff:
  fixes w :: go_int
  shows "w AND 1 = 1 \<longleftrightarrow> odd (unat w)"
proof -
  have "w AND 1 = 1 \<longleftrightarrow> bit w 0"
    using bit_word_iff_drop_bit_and [of w 0] by simp
  also have "\<dots> \<longleftrightarrow> bit (unat w) 0"
    by (simp add: bit_unsigned_iff)
  finally show ?thesis
    by (simp add: bit_0)
qed

lemma shift_bit_iff:
  fixes n :: go_int
  assumes "1 \<le>s n"
  shows "signed_drop_bit k n AND 1 = 1 \<longleftrightarrow> odd (unat n div 2 ^ k)"
  by (simp add: and_1_iff signed_shift_pos [OF assms])

lemma mask_bit_iff:
  fixes n :: go_int
  shows "n AND 2 ^ j \<noteq> 0 \<longleftrightarrow> odd (unat n div 2 ^ j)"
proof -
  have "n AND 2 ^ j \<noteq> 0 \<longleftrightarrow> bit n j"
    by (simp add: and_exp_eq_0_iff_not_bit)
  also have "\<dots> \<longleftrightarrow> bit (unat n) j"
    by (simp add: bit_unsigned_iff)
  finally show ?thesis
    by (simp add: bit_iff_odd)
qed

lemma mask_shift:
  "j < 62 \<Longrightarrow> signed_drop_bit 1 (2 ^ Suc j :: go_int) = 2 ^ j"
  by (rule bit_word_eqI) (auto simp add: bit_simps)

lemma of_nat_sless_iff:
  "a < 2 ^ 63 \<Longrightarrow> b < 2 ^ 63 \<Longrightarrow> (word_of_nat a :: go_int) <s word_of_nat b \<longleftrightarrow> a < b"
  by (simp add: word_sless_alt sint_of_nat_small)

lemma parity_split: "(q::nat) = 2 * (q div 2) + (if odd q then 1 else 0)"
  by presburger

lemma div_pow2_step:
  fixes N :: nat
  shows "N div 2 ^ d = 2 * (N div 2 ^ Suc d) + (if odd (N div 2 ^ d) then 1 else 0)"
proof -
  have "N div 2 ^ Suc d = N div (2 ^ d * 2)"
    by (simp add: mult.commute)
  also have "\<dots> = (N div 2 ^ d) div 2"
    by (rule div_mult2_eq)
  finally have h: "N div 2 ^ Suc d = (N div 2 ^ d) div 2" .
  show ?thesis
    unfolding h by (rule parity_split)
qed

section \<open>The bit-length helper: termination and result\<close>

lemma exp_less_63:
  "(2::nat) ^ m < 2 ^ 63 \<Longrightarrow> m < 63"
  using power_strict_increasing_iff [of "2::nat" m 63] by simp

lemma log2_loop_correct:
  fixes n :: go_int
  assumes n: "1 \<le>s n" and lo: "2 ^ m \<le> unat n" and hi: "unat n < 2 ^ Suc m" and km: "k \<le> m"
  shows "log2_loop n (word_of_nat k) = Some (word_of_nat m)"
  using km
proof (induction "m - k" arbitrary: k)
  case 0
  then have [simp]: "k = m"
    by simp
  have "(2::nat) ^ m < 2 ^ 63"
    using lo pos_sint(3) [OF n] by linarith
  then have "m < 63"
    by (rule exp_less_63)
  then have u: "unat (word_of_nat m + 1 :: go_int) = Suc m"
    using unat_of_nat_small [of "Suc m"] by (simp add: add.commute)
  have "signed_drop_bit (unat (word_of_nat m + 1 :: go_int)) n = 0"
    using shift_nonzero_iff [OF n, of "Suc m"] hi unfolding u by simp
  then show ?case
    by (subst log2_loop.simps) simp
next
  case (Suc d)
  then have k: "Suc k \<le> m"
    by simp
  have "(2::nat) ^ m < 2 ^ 63"
    using lo pos_sint(3) [OF n] by linarith
  then have "m < 63"
    by (rule exp_less_63)
  with k have u: "unat (word_of_nat k + 1 :: go_int) = Suc k"
    using unat_of_nat_small [of "Suc k"] by (simp add: add.commute)
  have "(2::nat) ^ Suc k \<le> 2 ^ m"
    using k by (intro power_increasing) simp_all
  with lo have "2 ^ Suc k \<le> unat n"
    by linarith
  then have nz: "signed_drop_bit (unat (word_of_nat k + 1 :: go_int)) n \<noteq> 0"
    using shift_nonzero_iff [OF n, of "Suc k"] unfolding u by simp
  have "log2_loop n (word_of_nat k) = log2_loop n (word_of_nat (Suc k))"
    using nz by (subst log2_loop.simps) (simp add: add.commute)
  also have "\<dots> = Some (word_of_nat m)"
    using Suc.hyps(2) k by (intro Suc.hyps(1)) simp_all
  finally show ?case .
qed

lemma msb_pos_bounds:
  assumes "0 < N"
  shows "2 ^ msb_pos N \<le> N" and "N < 2 ^ Suc (msb_pos N)"
proof -
  have "0 \<le> log 2 (real N)"
    using assms by simp
  then have "\<lfloor>log 2 (real N)\<rfloor> = int (msb_pos N)"
    by (simp add: msb_pos_def)
  then have "2 ^ msb_pos N \<le> N \<and> N < 2 ^ (msb_pos N + 1)"
    using floor_log_nat_eq_powr_iff [of 2 N "msb_pos N"] assms by simp
  then show "2 ^ msb_pos N \<le> N" and "N < 2 ^ Suc (msb_pos N)"
    by simp_all
qed

lemma log2_pos:
  fixes n :: go_int
  assumes "1 \<le>s n"
  shows "log2 n = Some (word_of_nat (msb_pos (unat n)))"
  unfolding log2_def
  using log2_loop_correct [OF assms msb_pos_bounds [OF pos_sint(2) [OF assms]], of 0]
  by simp

lemma msb_pos_less:
  fixes n :: go_int
  assumes "1 \<le>s n"
  shows "msb_pos (unat n) < 63"
proof -
  have "(2::nat) ^ msb_pos (unat n) < 2 ^ 63"
    using msb_pos_bounds(1) [OF pos_sint(2) [OF assms]] pos_sint(3) [OF assms] by linarith
  then show ?thesis
    by (rule exp_less_63)
qed

lemma shift_neg_nonzero:
  fixes n :: go_int
  assumes "n <s 0"
  shows "signed_drop_bit k n \<noteq> 0"
proof
  assume "signed_drop_bit k n = 0"
  then have "sint (signed_drop_bit k n) = 0"
    by simp
  then have "drop_bit k (sint n) = 0"
    by (simp only: sint_signed_drop_bit_eq)
  moreover have "sint n < 0"
    using assms by (simp add: word_sless_alt)
  then have "drop_bit k (sint n) < 0"
    by simp
  ultimately show False
    by simp
qed

lemma log2_loop_Some_nonneg:
  assumes "log2_loop n bits = Some y"
  shows "\<not> n <s 0"
proof (rule log2_loop.raw_induct [where P = "\<lambda>n bits y. \<not> n <s 0", OF _ assms])
  fix f and n bits y :: go_int
  assume IH: "\<And>n bits y. f n bits = Some y \<Longrightarrow> \<not> n <s 0"
    and eq: "(if signed_drop_bit (unat (bits + 1)) n \<noteq> 0 then f n (bits + 1) else Some bits) = Some y"
  show "\<not> n <s 0"
  proof (cases "signed_drop_bit (unat (bits + 1)) n \<noteq> 0")
    case True
    with eq have "f n (bits + 1) = Some y"
      by simp
    then show ?thesis
      by (rule IH)
  next
    case False
    then show ?thesis
      using shift_neg_nonzero [of n "unat (bits + 1)"] by blast
  qed
qed

lemma log2_neg_loop:
  fixes n :: go_int
  assumes "n <s 0"
  shows "log2_loop n bits = None"
proof (cases "log2_loop n bits")
  case None
  then show ?thesis .
next
  case (Some y)
  with assms log2_loop_Some_nonneg show ?thesis
    by blast
qed

section \<open>The linear series evaluator: result\<close>

lemma of_nat_succ: "(word_of_nat k + 1 :: go_int) = word_of_nat (Suc k)"
  by (simp add: add.commute)

lemma nat_sint_small: "nat (sint (n :: go_int)) < 2 ^ 63"
  using sint_lt [of n] by simp

lemma fibSeries_loop_funpow:
  fixes n :: go_int
  assumes "k \<le> nat (sint n)"
  shows "fibSeries_loop n (word_of_nat k) a b = fst ((series_step ^^ (nat (sint n) - k)) (a, b))"
  using assms
proof (induction "nat (sint n) - k" arbitrary: k a b)
  case 0
  then have "k < 2 ^ 63"
    using nat_sint_small [of n] by linarith
  then have "sint (word_of_nat k :: go_int) = int k"
    by (rule sint_of_nat_small)
  with 0 have "\<not> (word_of_nat k :: go_int) <s n"
    by (simp add: word_sless_alt)
  with 0 show ?case
    by (subst fibSeries_loop.simps) simp
next
  case (Suc d)
  then have kn: "k < nat (sint n)"
    by simp
  then have "k < 2 ^ 63"
    using nat_sint_small [of n] by linarith
  then have "sint (word_of_nat k :: go_int) = int k"
    by (rule sint_of_nat_small)
  with kn have lt: "(word_of_nat k :: go_int) <s n"
    by (simp add: word_sless_alt)
  have r: "nat (sint n) - k = Suc (nat (sint n) - Suc k)"
    using kn by simp
  have "fibSeries_loop n (word_of_nat k) a b = fibSeries_loop n (word_of_nat (Suc k)) b (a + b)"
    using lt by (subst fibSeries_loop.simps) (simp add: add.commute)
  also have "\<dots> = fst ((series_step ^^ (nat (sint n) - Suc k)) (b, a + b))"
    using Suc.hyps(2) kn by (intro Suc.hyps(1)) simp_all
  also have "\<dots> = fst ((series_step ^^ (nat (sint n) - k)) (a, b))"
    unfolding r by (simp add: funpow_Suc_right series_step_def del: funpow.simps)
  finally show ?case .
qed

lemma series_step_F:
  "(series_step ^^ m) (F_spec j, F_spec (Suc j)) = (F_spec (j + m), F_spec (Suc (j + m)))"
  by (induction m) (simp_all add: series_step_def add.commute)

lemma series_spec_F: "series_spec m = F_spec m"
  using series_step_F [of m 0] by (simp add: series_spec_def)

lemma fibSeries_series_spec:
  "1 \<le>s n \<Longrightarrow> fibSeries n = series_spec (nat (sint n))"
  using fibSeries_loop_funpow [of 0 n 0 1]
  by (simp add: fibSeries_def series_spec_def word_sle_eq word_sless_alt)

lemma length_fibonacciTable: "length fibonacciTable = 93"
  by (simp add: fibonacciTable_def)

section \<open>The bit-scanning identity evaluator: invariant and result\<close>

lemma blenk_body_inv:
  fixes n :: go_int
  assumes n: "1 \<le>s n" and d: "d < 63" and k: "unat n div 2 ^ Suc d = Suc j"
  shows "\<exists>f3'. blenk_body n (word_of_nat (Suc d)) (F_spec j) (F_spec (Suc j)) f3
    = (F_spec (unat n div 2 ^ d - 1), F_spec (unat n div 2 ^ d), f3')"
proof -
  have u: "unat (word_of_nat (Suc d) - 1 :: go_int) = d"
    using d unat_of_nat_small [of d] by simp
  have bit: "signed_drop_bit (unat (word_of_nat (Suc d) - 1 :: go_int)) n AND 1 = 1
      \<longleftrightarrow> odd (unat n div 2 ^ d)"
    unfolding u by (rule shift_bit_iff [OF n])
  show ?thesis
  proof (cases "odd (unat n div 2 ^ d)")
    case True
    then have e: "unat n div 2 ^ d = Suc (2 * Suc j)"
      using div_pow2_step [of "unat n" d] k by simp
    have "blenk_body n (word_of_nat (Suc d)) (F_spec j) (F_spec (Suc j)) f3
      = ((F_spec j + (F_spec j + F_spec (Suc j))) * F_spec (Suc j),
         F_spec (Suc j) * F_spec (Suc j)
           + (F_spec j + F_spec (Suc j)) * (F_spec j + F_spec (Suc j)),
         (F_spec j + F_spec (Suc j)) * (F_spec j + F_spec (Suc j)))"
      using True bit by (simp add: blenk_body_def Let_def)
    also have "(F_spec j + (F_spec j + F_spec (Suc j))) * F_spec (Suc j) = F_spec (2 * Suc j)"
      by (rule F_spec_even [symmetric])
    also have "F_spec (Suc j) * F_spec (Suc j)
           + (F_spec j + F_spec (Suc j)) * (F_spec j + F_spec (Suc j)) = F_spec (Suc (2 * Suc j))"
      unfolding F_spec_odd [of "Suc j"] by (simp add: add.commute)
    finally show ?thesis
      unfolding e by simp
  next
    case False
    then have e: "unat n div 2 ^ d = 2 * Suc j"
      using div_pow2_step [of "unat n" d] k by simp
    have "blenk_body n (word_of_nat (Suc d)) (F_spec j) (F_spec (Suc j)) f3
      = (F_spec j * F_spec j + F_spec (Suc j) * F_spec (Suc j),
         (F_spec j + (F_spec j + F_spec (Suc j))) * F_spec (Suc j),
         F_spec (Suc j) * F_spec (Suc j))"
      using False bit by (simp add: blenk_body_def Let_def)
    also have "(F_spec j + (F_spec j + F_spec (Suc j))) * F_spec (Suc j) = F_spec (2 * Suc j)"
      by (rule F_spec_even [symmetric])
    also have "F_spec j * F_spec j + F_spec (Suc j) * F_spec (Suc j) = F_spec (Suc (2 * j))"
      by (rule F_spec_odd [symmetric])
    finally show ?thesis
      unfolding e by simp
  qed
qed

lemma div_top:
  assumes "0 < N"
  shows "N div 2 ^ msb_pos N = 1"
proof -
  have lo: "2 ^ msb_pos N \<le> N" and hi: "N < 2 ^ Suc (msb_pos N)"
    using msb_pos_bounds [OF assms] by simp_all
  have "N div 2 ^ msb_pos N < 2"
    using hi by (simp add: less_mult_imp_div_less mult.commute)
  moreover have "0 < N div 2 ^ msb_pos N"
    using lo by (simp add: div_greater_zero_iff)
  ultimately show ?thesis
    by linarith
qed

lemma div_pos_below_top:
  assumes "0 < N" and "e \<le> msb_pos N"
  shows "0 < N div 2 ^ e"
proof -
  have "(2::nat) ^ e \<le> 2 ^ msb_pos N"
    using assms(2) by (intro power_increasing) simp_all
  also have "\<dots> \<le> N"
    by (rule msb_pos_bounds(1) [OF assms(1)])
  finally show ?thesis
    by (simp add: div_greater_zero_iff)
qed

lemma blenk_steps_inv:
  fixes n :: go_int
  assumes n: "1 \<le>s n" and j: "j \<le> msb_pos (unat n)"
  shows "\<exists>f3. (blenk_step n ^^ j) (word_of_nat (msb_pos (unat n)), 0, 1, 0)
    = (word_of_nat (msb_pos (unat n) - j),
       F_spec (unat n div 2 ^ (msb_pos (unat n) - j) - 1),
       F_spec (unat n div 2 ^ (msb_pos (unat n) - j)), f3)"
  using j
proof (induction j)
  case 0
  show ?case
    by (simp add: div_top [OF pos_sint(2) [OF n]])
next
  case (Suc j)
  let ?m = "msb_pos (unat n)"
  from Suc.prems have jm: "j \<le> ?m" and e: "?m - j = Suc (?m - Suc j)"
    by simp_all
  from Suc.IH [OF jm] obtain f3 where
    st: "(blenk_step n ^^ j) (word_of_nat ?m, 0, 1, 0)
      = (word_of_nat (Suc (?m - Suc j)),
         F_spec (unat n div 2 ^ Suc (?m - Suc j) - 1),
         F_spec (unat n div 2 ^ Suc (?m - Suc j)), f3)"
    unfolding e by blast
  have "0 < unat n div 2 ^ Suc (?m - Suc j)"
    using div_pos_below_top [OF pos_sint(2) [OF n], of "Suc (?m - Suc j)"] Suc.prems by simp
  then obtain i where i: "unat n div 2 ^ Suc (?m - Suc j) = Suc i"
    using gr0_implies_Suc by blast
  have st': "(blenk_step n ^^ j) (word_of_nat ?m, 0, 1, 0)
      = (word_of_nat (Suc (?m - Suc j)), F_spec i, F_spec (Suc i), f3)"
    using st unfolding i by simp
  have d: "?m - Suc j < 63"
    using msb_pos_less [OF n] by simp
  from blenk_body_inv [OF n d i, of f3] obtain f3' where
    "blenk_body n (word_of_nat (Suc (?m - Suc j))) (F_spec i) (F_spec (Suc i)) f3
      = (F_spec (unat n div 2 ^ (?m - Suc j) - 1), F_spec (unat n div 2 ^ (?m - Suc j)), f3')"
    by blast
  then have "(blenk_step n ^^ Suc j) (word_of_nat ?m, 0, 1, 0)
    = (word_of_nat (?m - Suc j),
       F_spec (unat n div 2 ^ (?m - Suc j) - 1), F_spec (unat n div 2 ^ (?m - Suc j)), f3')"
    by (simp add: st')
  then show ?case
    by blast
qed

lemma blenk_loop_funpow:
  "blenk_loop n s = (blenk_step n ^^ unat (fst s)) s"
proof (induction n s rule: blenk_loop.induct)
  case (1 n h f1 f2 f3)
  show ?case
  proof (cases "0 < h")
    case True
    then have u: "unat h = Suc (unat (h - 1))"
      by (simp add: unat_minus_one word_neq_0_conv [symmetric] unat_gt_0)
    have "fst (blenk_step n (h, f1, f2, f3)) = h - 1"
      by (simp split: prod.splits)
    with 1 [OF True] True show ?thesis
      unfolding fst_conv u
      by (subst blenk_loop.simps) (simp add: funpow_Suc_right del: funpow.simps blenk_step.simps)
  next
    case False
    then have "h = 0"
      by (simp add: word_neq_0_conv [symmetric])
    then show ?thesis
      by (subst blenk_loop.simps) simp
  qed
qed

lemma fibBlenkinsop_F:
  fixes n :: go_int
  assumes n: "1 \<le>s n"
  shows "fibBlenkinsop n = Some (F_spec (unat n))"
proof -
  let ?m = "msb_pos (unat n)"
  have um: "unat (word_of_nat ?m :: go_int) = ?m"
    using msb_pos_less [OF n] unat_of_nat_small [of ?m] by simp
  from blenk_steps_inv [OF n order_refl] obtain f3 where
    "(blenk_step n ^^ ?m) (word_of_nat ?m, 0, 1, 0) = (0, F_spec (unat n - 1), F_spec (unat n), f3)"
    by auto
  then have "blenk_loop n (word_of_nat ?m, 0, 1, 0) = (0, F_spec (unat n - 1), F_spec (unat n), f3)"
    by (simp add: blenk_loop_funpow um)
  then show ?thesis
    using n by (simp add: fibBlenkinsop_def log2_pos [OF n] word_sle_eq word_sless_alt)
qed

section \<open>The Lucas-sequence evaluator: invariant and result\<close>

lemma tak_body_unfold:
  "tak_body n (msk, f, l, sign, t1, t2) =
    (if n AND msk \<noteq> 0 then
       (signed_drop_bit 1 msk,
        drop_bit 1 (push_bit 1 (drop_bit 1 (f + l) * drop_bit 1 (f + l)) - f * f * 3 - sign * 2
          + (f * f * 5 + sign * 2)),
        drop_bit 1 (push_bit 1 (drop_bit 1 (f + l) * drop_bit 1 (f + l)) - f * f * 3 - sign * 2
          + (f * f * 5 + sign * 2))
          + push_bit 1 (push_bit 1 (drop_bit 1 (f + l) * drop_bit 1 (f + l)) - f * f * 3 - sign * 2),
        - 1,
        push_bit 1 (push_bit 1 (drop_bit 1 (f + l) * drop_bit 1 (f + l)) - f * f * 3 - sign * 2),
        sign * 2)
     else
       (signed_drop_bit 1 msk,
        push_bit 1 (drop_bit 1 (f + l) * drop_bit 1 (f + l)) - f * f * 3 - sign * 2,
        f * f * 5 + sign * 2,
        1, f * f, sign * 2))"
  by (simp only: tak_body.simps Let_def c2_def c3_def c5_def)

lemma tak_body_inv:
  fixes n :: go_int
  assumes d: "d < 62"
  shows "\<exists>t1' t2'. tak_body n (2 ^ Suc d,
      F_spec (unat n div 2 ^ Suc (Suc d)), L_spec (unat n div 2 ^ Suc (Suc d)),
      (- 1) ^ (unat n div 2 ^ Suc (Suc d)), t1, t2)
    = (2 ^ d, F_spec (unat n div 2 ^ Suc d), L_spec (unat n div 2 ^ Suc d),
       (- 1) ^ (unat n div 2 ^ Suc d), t1', t2')"
proof -
  define k where "k = unat n div 2 ^ Suc (Suc d)"
  have bit: "n AND 2 ^ Suc d \<noteq> 0 \<longleftrightarrow> odd (unat n div 2 ^ Suc d)"
    by (rule mask_bit_iff)
  show ?thesis
  proof (cases "odd (unat n div 2 ^ Suc d)")
    case True
    then have e: "unat n div 2 ^ Suc d = Suc (2 * k)"
      using div_pow2_step [of "unat n" "Suc d"] by (simp add: k_def)
    have "tak_body n (2 ^ Suc d, F_spec k, L_spec k, (- 1) ^ k, t1, t2)
      = (2 ^ d, F_spec (Suc (2 * k)), L_spec (Suc (2 * k)),
           - 1, push_bit 1 (F_spec (2 * k)), (- 1) ^ k * 2)"
      using True
      by (simp only: tak_body_unfold half_F_L tak_F_double tak_L_double tak_L_odd bit
          mask_shift [OF d] simp_thms if_True)
    then show ?thesis
      unfolding e k_def [symmetric] by simp
  next
    case False
    then have e: "unat n div 2 ^ Suc d = 2 * k"
      using div_pow2_step [of "unat n" "Suc d"] by (simp add: k_def)
    have "tak_body n (2 ^ Suc d, F_spec k, L_spec k, (- 1) ^ k, t1, t2)
      = (2 ^ d, F_spec (2 * k), L_spec (2 * k), 1, F_spec k * F_spec k, (- 1) ^ k * 2)"
      using False
      by (simp only: tak_body_unfold half_F_L tak_F_double tak_L_double bit
          mask_shift [OF d] simp_thms if_False)
    then show ?thesis
      unfolding e k_def [symmetric] by simp
  qed
qed

lemma tak_loop_inv:
  fixes n :: go_int
  assumes m: "m < 63" and r: "r < m"
  shows "\<exists>t1' t2'. tak_loop n (word_of_nat m) (word_of_nat (m - r))
      (2 ^ r, F_spec (unat n div 2 ^ Suc r), L_spec (unat n div 2 ^ Suc r),
       (- 1) ^ (unat n div 2 ^ Suc r), t1, t2)
    = (1, F_spec (unat n div 2), L_spec (unat n div 2), (- 1) ^ (unat n div 2), t1', t2')"
  using r
proof (induction r arbitrary: t1 t2)
  case 0
  have "\<not> (word_of_nat m :: go_int) <s word_of_nat m"
    by simp
  then show ?case
    by (subst tak_loop.simps) simp
next
  case (Suc r)
  have lt: "(word_of_nat (m - Suc r) :: go_int) <s word_of_nat m"
    using m Suc.prems by (subst of_nat_sless_iff) simp_all
  have "m - r = Suc (m - Suc r)"
    using Suc.prems by simp
  then have nx: "(word_of_nat (m - Suc r) + 1 :: go_int) = word_of_nat (m - r)"
    by (simp only: of_nat_succ)
  have d: "r < 62"
    using m Suc.prems by simp
  from tak_body_inv [OF d, of n t1 t2] obtain t1' t2' where
    b: "tak_body n (2 ^ Suc r,
      F_spec (unat n div 2 ^ Suc (Suc r)), L_spec (unat n div 2 ^ Suc (Suc r)),
      (- 1) ^ (unat n div 2 ^ Suc (Suc r)), t1, t2)
    = (2 ^ r, F_spec (unat n div 2 ^ Suc r), L_spec (unat n div 2 ^ Suc r),
       (- 1) ^ (unat n div 2 ^ Suc r), t1', t2')"
    by blast
  have rm: "r < m"
    using Suc.prems by simp
  show ?case
    using Suc.IH [OF rm, of t1' t2'] lt
    by (subst tak_loop.simps) (simp only: lt if_True nx b)
qed

lemma tak_final_inv:
  fixes n :: go_int
  shows "tak_final n (1, F_spec (unat n div 2), L_spec (unat n div 2),
      (- 1) ^ (unat n div 2), t1, t2) = F_spec (unat n)"
proof -
  define k where "k = unat n div 2"
  have bit: "n AND 1 = 0 \<longleftrightarrow> even (unat n)"
    using mask_bit_iff [of n 0] by simp
  show ?thesis
  proof (cases "even (unat n)")
    case True
    then have e: "unat n = 2 * k"
      by (simp add: k_def)
    have "tak_final n (1, F_spec k, L_spec k, (- 1) ^ k, t1, t2) = F_spec k * L_spec k"
      using True bit by (simp only: tak_final.simps Let_def simp_thms if_True)
    also have "\<dots> = F_spec (2 * k)"
      by (rule F_spec_double [symmetric])
    finally have "tak_final n (1, F_spec k, L_spec k, (- 1) ^ k, t1, t2) = F_spec (unat n)"
      by (simp only: e)
    then show ?thesis
      by (simp only: k_def)
  next
    case False
    then have e: "unat n = Suc (2 * k)"
      by (simp add: k_def)
    have "tak_final n (1, F_spec k, L_spec k, (- 1) ^ k, t1, t2)
        = drop_bit 1 (F_spec k + L_spec k) * L_spec k - (- 1) ^ k"
      using False bit by (simp only: tak_final.simps Let_def simp_thms if_False)
    also have "\<dots> = F_spec (Suc (2 * k))"
      unfolding half_F_L by (rule tak_final_odd)
    finally have "tak_final n (1, F_spec k, L_spec k, (- 1) ^ k, t1, t2) = F_spec (unat n)"
      by (simp only: e)
    then show ?thesis
      by (simp only: k_def)
  qed
qed

lemma msb_pos_ge_1:
  assumes "2 \<le> N"
  shows "1 \<le> msb_pos N"
proof (rule ccontr)
  assume "\<not> 1 \<le> msb_pos N"
  then have "msb_pos N = 0"
    by simp
  with msb_pos_bounds(2) [of N] assms show False
    by simp
qed

lemma fibTakahashi_F:
  fixes n :: go_int
  assumes n: "1 \<le>s n"
  shows "fibTakahashi n = Some (F_spec (unat n))"
proof (cases "n \<le>s 2")
  case True
  have "sint n = 1 \<or> sint n = 2"
    using n True by (auto simp add: word_sle_eq)
  then have "unat n = 1 \<or> unat n = 2"
    using pos_sint(1) [OF n] by linarith
  then have "F_spec (unat n) = 1"
    by (auto simp add: numeral_2_eq_2)
  then show ?thesis
    using n True by (simp add: fibTakahashi_def word_sle_eq)
next
  case False
  let ?N = "unat n" and ?m = "msb_pos (unat n)"
  have "2 < sint n"
    using False by (simp add: word_sle_eq)
  then have N: "2 \<le> ?N"
    using pos_sint(1) [OF n] by linarith
  then have pos: "0 < ?N"
    by simp
  have m1: "1 \<le> ?m"
    by (rule msb_pos_ge_1 [OF N])
  then obtain r where mr: "?m = Suc r"
    by (cases ?m) simp_all
  have m63: "?m < 63"
    by (rule msb_pos_less [OF n])
  have ur: "unat (word_of_nat ?m - 1 :: go_int) = r"
    using m63 unat_of_nat_small [of r] by (simp add: mr)
  have i1: "(1 :: go_int) = word_of_nat (?m - r)"
    by (simp add: mr)
  have top: "?N div 2 ^ Suc r = 1"
    using div_top [OF pos] by (simp only: mr)
  have L1: "L_spec (Suc 0) = 1"
    by (simp add: L_spec_def numeral_2_eq_2)
  have rm: "r < ?m"
    by (simp add: mr)
  from tak_loop_inv [OF m63 rm, of n 0 0] obtain t1' t2' where
    "tak_loop n (word_of_nat ?m) (word_of_nat (?m - r))
       (2 ^ r, F_spec (?N div 2 ^ Suc r), L_spec (?N div 2 ^ Suc r),
        (- 1) ^ (?N div 2 ^ Suc r), 0, 0)
     = (1, F_spec (?N div 2), L_spec (?N div 2), (- 1) ^ (?N div 2), t1', t2')"
    by blast
  then have "tak_loop n (word_of_nat ?m) 1 (2 ^ r, 1, 1, - 1, 0, 0)
     = (1, F_spec (?N div 2), L_spec (?N div 2), (- 1) ^ (?N div 2), t1', t2')"
    unfolding top i1 [symmetric] by (simp add: L1)
  then have "tak_final n (tak_loop n (word_of_nat ?m) 1
       (push_bit (unat (word_of_nat ?m - 1 :: go_int)) 1, 1, 1, - 1, 0, 0)) = F_spec ?N"
    unfolding ur by (simp only: push_bit_of_1 tak_final_inv)
  then show ?thesis
    using False n by (simp add: fibTakahashi_def log2_pos [OF n] word_sle_eq)
qed


section \<open>The static table\<close>

lemma F_list_nth:
  "i < k \<Longrightarrow> F_list k (F_spec j) (F_spec (Suc j)) ! i = F_spec (j + i)"
proof (induction k arbitrary: i j)
  case 0
  then show ?case by simp
next
  case (Suc k)
  show ?case
  proof (cases i)
    case 0
    then show ?thesis by simp
  next
    case (Suc i')
    with Suc.prems have "i' < k"
      by simp
    from Suc.IH [OF this, of "Suc j"] Suc show ?thesis
      by (simp add: add.commute)
  qed
qed

lemma table_F_list: "map sint fibonacciTable = F_list 93 0 1"
  by (simp add: fibonacciTable_def eval_nat_numeral)

section \<open>The dispatcher: result and termination\<close>

lemma with_log2:
  "fibBlenkinsop_with log2 n = fibBlenkinsop n"
  "fibTakahashi_with log2 n = fibTakahashi n"
  "Fibonacci_with log2 n = Fibonacci n"
  by (simp_all add: fibBlenkinsop_with_def fibBlenkinsop_def fibTakahashi_with_def
      fibTakahashi_def Fibonacci_with_def Fibonacci_def)

lemma evaluators_with_cong:
  assumes "\<And>m. 1 \<le>s m \<Longrightarrow> lg m = lg' m"
  shows "fibBlenkinsop_with lg n = fibBlenkinsop_with lg' n"
    and "fibTakahashi_with lg n = fibTakahashi_with lg' n"
proof -
  show "fibBlenkinsop_with lg n = fibBlenkinsop_with lg' n"
  proof (cases "n <s 1")
    case True
    then show ?thesis
      by (simp add: fibBlenkinsop_with_def)
  next
    case False
    then have "1 \<le>s n"
      by (simp add: word_sle_eq word_sless_alt)
    then have "lg n = lg' n"
      by (rule assms)
    then show ?thesis
      by (simp add: fibBlenkinsop_with_def)
  qed
  show "fibTakahashi_with lg n = fibTakahashi_with lg' n"
  proof (cases "n \<le>s 2")
    case True
    then show ?thesis
      by (simp add: fibTakahashi_with_def)
  next
    case False
    then have "1 \<le>s n"
      by (simp add: word_sle_eq)
    then have "lg n = lg' n"
      by (rule assms)
    then show ?thesis
      by (simp add: fibTakahashi_with_def)
  qed
qed

lemma Fibonacci_with_cong:
  assumes "\<And>m. 93 \<le>s m \<Longrightarrow> lg m = lg' m"
  shows "Fibonacci_with lg n = Fibonacci_with lg' n"
proof (cases "n \<le>s 100")
  case True
  then show ?thesis
    by (simp add: Fibonacci_with_def)
next
  case False
  then have "93 \<le>s n"
    by (simp add: word_sle_eq)
  then have e: "lg n = lg' n"
    by (rule assms)
  have "\<not> n <s 1" and "\<not> n \<le>s 0" and "\<not> n \<le>s 2"
    using False by (simp_all add: word_sle_eq word_sless_alt)
  then have "fibBlenkinsop_with lg n = fibBlenkinsop_with lg' n"
    and "fibTakahashi_with lg n = fibTakahashi_with lg' n"
    using e by (simp_all add: fibBlenkinsop_with_def fibTakahashi_with_def)
  then show ?thesis
    by (simp add: Fibonacci_with_def)
qed

lemma table_nth:
  assumes "i < 93"
  shows "sint (fibonacciTable ! i) = F_spec i"
proof -
  have "sint (fibonacciTable ! i) = map sint fibonacciTable ! i"
    using assms by (simp add: length_fibonacciTable)
  also have "\<dots> = F_list 93 (F_spec 0) (F_spec (Suc 0)) ! i"
    by (simp only: table_F_list F_spec.simps)
  also have "\<dots> = F_spec (0 + i)"
    using assms by (rule F_list_nth)
  finally show ?thesis
    by simp
qed

lemma Fibonacci_F:
  fixes n :: go_int
  assumes "0 \<le>s n"
  shows "Fibonacci n = Some (F_spec (nat (sint n)))"
proof (cases "n <s 1")
  case True
  with assms have "sint n = 0"
    by (simp add: word_sle_eq word_sless_alt)
  with True show ?thesis
    by (simp add: Fibonacci_def)
next
  case False
  then have n: "1 \<le>s n"
    by (simp add: word_sle_eq word_sless_alt)
  have N: "nat (sint n) = unat n"
    using pos_sint(1) [OF n] by simp
  show ?thesis
  proof (cases "n <s 93")
    case True
    then have "int (unat n) < 93"
      using pos_sint(1) [OF n] by (simp add: word_sless_alt)
    then have "unat n < 93"
      by linarith
    then have "sint (fibonacciTable ! unat n) = F_spec (unat n)"
      by (rule table_nth)
    with True False show ?thesis
      by (simp add: Fibonacci_def length_fibonacciTable N)
  next
    case False
    note ge93 = this
    show ?thesis
    proof (cases "n \<le>s 100")
      case True
      have "fibSeries n = F_spec (nat (sint n))"
        using fibSeries_series_spec [OF n] by (simp add: series_spec_F)
      with True ge93 \<open>\<not> n <s 1\<close> show ?thesis
        by (simp add: Fibonacci_def length_fibonacciTable)
    next
      case False
      with ge93 \<open>\<not> n <s 1\<close> show ?thesis
        by (simp add: Fibonacci_def length_fibonacciTable N fibBlenkinsop_F [OF n]
            fibTakahashi_F [OF n])
    qed
  qed
qed

lemma Fibonacci_total: "\<exists>v. Fibonacci n = Some v"
proof (cases "0 \<le>s n")
  case True
  then show ?thesis
    by (simp add: Fibonacci_F)
next
  case False
  then have "n <s 1"
    by (simp add: word_sle_eq word_sless_alt)
  then show ?thesis
    by (simp add: Fibonacci_def)
qed

lemma evaluators_total:
  "\<exists>v. fibBlenkinsop n = Some v" "\<exists>v. fibTakahashi n = Some v"
proof -
  show "\<exists>v. fibBlenkinsop n = Some v"
  proof (cases "1 \<le>s n")
    case True
    then show ?thesis
      by (simp add: fibBlenkinsop_F)
  next
    case False
    then have "n <s 1"
      by (simp add: word_sle_eq word_sless_alt)
    then show ?thesis
      by (simp add: fibBlenkinsop_def)
  qed
  show "\<exists>v. fibTakahashi n = Some v"
  proof (cases "1 \<le>s n")
    case True
    then show ?thesis
      by (simp add: fibTakahashi_F)
  next
    case False
    then have "n \<le>s 0"
      by (simp add: word_sle_eq)
    then show ?thesis
      by (simp add: fibTakahashi_def)
  qed
qed

lemma sint_minus_small:
  fixes n :: go_int
  assumes "0 \<le> sint n - int c" and "c < 2 ^ 62"
  shows "sint (n - word_of_nat c) = sint n - int c"
proof -
  have "sint n < 2 ^ 63"
    using sint_lt [of n] by simp
  then have "sint n - int c < 2 ^ 63"
    by linarith
  moreover have "- (2 ^ 63) \<le> (0::int)"
    by simp
  then have "- (2 ^ 63) \<le> sint n - int c"
    using assms(1) by (rule order_trans)
  moreover have "sint (word_of_nat c :: go_int) = int c"
    using assms(2) by (intro sint_of_nat_small) simp
  ultimately show ?thesis
    by (simp add: sint_word_ariths signed_take_bit_int_eq_self)
qed

lemma Fibonacci_table_values:
  "Fibonacci 10 = Some 55" "Fibonacci 50 = Some 12586269025"
  "Fibonacci 92 = Some 7540113804746346429"
  by (simp_all add: Fibonacci_def fibonacciTable_def word_sless_alt)

lemma evaluators_agree:
  fixes n :: go_int
  assumes n: "1 \<le>s n"
  shows "fibBlenkinsop n = Some (fibSeries n)" and "fibTakahashi n = Some (fibSeries n)"
proof -
  have "fibSeries n = F_spec (unat n)"
    using fibSeries_series_spec [OF n] pos_sint(1) [OF n] by (simp add: series_spec_F)
  then show "fibBlenkinsop n = Some (fibSeries n)" and "fibTakahashi n = Some (fibSeries n)"
    by (simp_all add: fibBlenkinsop_F [OF n] fibTakahashi_F [OF n])
qed

lemma fibBlenkinsop_100: "fibBlenkinsop 100 = Some 354224848179261915075"
  by (simp add: fibBlenkinsop_def log2_def log2_loop.simps blenk_loop.simps blenk_body_def
      word_sless_alt)

lemma Fibonacci_by_source:
  "Fibonacci_by fibonacciTable fibSeries fibBlenkinsop fibTakahashi n = Fibonacci n"
  by (simp add: Fibonacci_by_def Fibonacci_def)

section \<open>The dispatcher selects one strategy by the index\<close>

text \<open>
  C3: the dispatcher \<open>Fibonacci\<close> selects exactly one strategy, by \<open>n\<close> alone. It is the
  parametrised dispatcher at the table and the three evaluators of the source, and for
  any table of 93 entries and any three evaluators: for \<open>n < 1\<close> the result is 0 and
  nothing is read or called; for \<open>1 \<le> n \<le> 92\<close> it is the entry of the table at index
  \<open>n\<close>, widened; for \<open>93 \<le> n \<le> 100\<close> it is what the series evaluator returns; for
  \<open>101 \<le> n \<le> 5504\<close> what the bit-scanning identity evaluator returns; for
  \<open>n \<ge> 5505\<close> what the Lucas-sequence evaluator returns. The five ranges are disjoint
  and cover every \<open>n\<close>. Hence \<open>Fibonacci\<close> returns the entry of \<open>fibonacciTable\<close>, or
  delegates to \<open>fibSeries\<close>, \<open>fibBlenkinsop\<close>, \<open>fibTakahashi\<close>, on these ranges.
\<close>

theorem Fibonacci_dispatch:
  "Fibonacci_by fibonacciTable fibSeries fibBlenkinsop fibTakahashi n = Fibonacci n \<and>
   length fibonacciTable = 93 \<and>
   (n <s 1 \<longrightarrow> Fibonacci_by tbl ser ble tak n = Some 0) \<and>
   (length tbl = 93 \<and> 1 \<le>s n \<and> n \<le>s 92 \<longrightarrow>
      Fibonacci_by tbl ser ble tak n = Some (sint (tbl ! unat n))) \<and>
   (length tbl = 93 \<and> 93 \<le>s n \<and> n \<le>s 100 \<longrightarrow>
      Fibonacci_by tbl ser ble tak n = Some (ser n)) \<and>
   (length tbl = 93 \<and> 101 \<le>s n \<and> n \<le>s 5504 \<longrightarrow>
      Fibonacci_by tbl ser ble tak n = ble n) \<and>
   (length tbl = 93 \<and> 5505 \<le>s n \<longrightarrow> Fibonacci_by tbl ser ble tak n = tak n) \<and>
   (n <s 1 \<longrightarrow> Fibonacci n = Some 0) \<and>
   (1 \<le>s n \<and> n \<le>s 92 \<longrightarrow> Fibonacci n = Some (sint (fibonacciTable ! unat n))) \<and>
   (93 \<le>s n \<and> n \<le>s 100 \<longrightarrow> Fibonacci n = Some (fibSeries n)) \<and>
   (101 \<le>s n \<and> n \<le>s 5504 \<longrightarrow> Fibonacci n = fibBlenkinsop n) \<and>
   (5505 \<le>s n \<longrightarrow> Fibonacci n = fibTakahashi n)"
  by (simp add: Fibonacci_by_def Fibonacci_def length_fibonacciTable word_sle_eq word_sless_alt)

theorem Fibonacci_dispatch_witness:
  "((- 3 :: go_int) <s 1 \<and> Fibonacci (- 3) = Some 0 \<and>
      Fibonacci_by [] (\<lambda>m. 7) (\<lambda>m. None) (\<lambda>m. None) (- 3) = Some 0) \<and>
   ((1 :: go_int) \<le>s 10 \<and> (10 :: go_int) \<le>s 92 \<and>
      Fibonacci 10 = Some (sint (fibonacciTable ! unat (10 :: go_int))) \<and>
      Fibonacci_by (replicate 93 4) (\<lambda>m. 7) (\<lambda>m. None) (\<lambda>m. None) 10 = Some 4) \<and>
   ((93 :: go_int) \<le>s 95 \<and> (95 :: go_int) \<le>s 100 \<and> Fibonacci 95 = Some (fibSeries 95) \<and>
      Fibonacci_by fibonacciTable (\<lambda>m. 7) (\<lambda>m. None) (\<lambda>m. None) 95 = Some 7) \<and>
   ((101 :: go_int) \<le>s 1000 \<and> (1000 :: go_int) \<le>s 5504 \<and>
      Fibonacci 1000 = fibBlenkinsop 1000 \<and>
      Fibonacci_by fibonacciTable (\<lambda>m. 7) (\<lambda>m. Some 8) (\<lambda>m. None) 1000 = Some 8) \<and>
   ((5505 :: go_int) \<le>s 6000 \<and> Fibonacci 6000 = fibTakahashi 6000 \<and>
      Fibonacci_by fibonacciTable (\<lambda>m. 7) (\<lambda>m. None) (\<lambda>m. Some 9) 6000 = Some 9)"
  using Fibonacci_dispatch [of "- 3" "[]" "\<lambda>m. 7" "\<lambda>m. None" "\<lambda>m. None"]
    Fibonacci_dispatch [of 10 "replicate 93 4" "\<lambda>m. 7" "\<lambda>m. None" "\<lambda>m. None"]
    Fibonacci_dispatch [of 95 fibonacciTable "\<lambda>m. 7" "\<lambda>m. None" "\<lambda>m. None"]
    Fibonacci_dispatch [of 1000 fibonacciTable "\<lambda>m. 7" "\<lambda>m. Some 8" "\<lambda>m. None"]
    Fibonacci_dispatch [of 6000 fibonacciTable "\<lambda>m. 7" "\<lambda>m. None" "\<lambda>m. Some 9"]
  by (simp add: word_sle_eq word_sless_alt)

section \<open>The edge cases of the Lucas-sequence evaluator\<close>

text \<open>
  C8: \<open>fibTakahashi\<close> returns 0 for every \<open>n \<le> 0\<close> and 1 for \<open>n = 1\<close> and
  \<open>n = 2\<close>, on branches that come before the call of the bit-length helper and the bit
  scan: the results are the same whatever helper \<open>lg\<close> stands in for \<open>log2\<close>, also one
  that never returns, whereas at \<open>n = 3\<close> such a helper leaves the evaluator without a
  result.
\<close>

theorem fibTakahashi_edges:
  "fibTakahashi_with log2 n = fibTakahashi n \<and>
   (n \<le>s 0 \<longrightarrow> fibTakahashi_with lg n = Some 0) \<and>
   fibTakahashi_with lg 1 = Some 1 \<and> fibTakahashi_with lg 2 = Some 1 \<and>
   fibTakahashi_with (\<lambda>m. None) 1 = Some 1 \<and> fibTakahashi_with (\<lambda>m. None) 2 = Some 1 \<and>
   fibTakahashi_with (\<lambda>m. None) 3 = None \<and>
   (n \<le>s 0 \<longrightarrow> fibTakahashi n = Some 0) \<and> fibTakahashi 1 = Some 1 \<and> fibTakahashi 2 = Some 1"
  by (simp add: fibTakahashi_with_def fibTakahashi_def word_sle_eq)

theorem fibTakahashi_edges_witness:
  "(- 7 :: go_int) \<le>s 0 \<and> fibTakahashi (- 7) = Some 0 \<and> log2 (- 7) = None \<and>
   fibTakahashi_with (\<lambda>m. None) (- 7) = Some 0"
  using fibTakahashi_edges [of "- 7" "\<lambda>m. None"] log2_neg_loop [of "- 7" 0]
  by (simp add: word_sle_eq word_sless_alt log2_def)

section \<open>The result of the bit-length helper\<close>

lemma msb_pos_floor:
  "0 < N \<Longrightarrow> int (msb_pos N) = \<lfloor>log 2 (real N)\<rfloor>"
  by (simp add: msb_pos_def)

lemma int_pow_bounds:
  fixes N m :: nat
  assumes "2 ^ m \<le> N" and "N < 2 ^ Suc m"
  shows "(2::int) ^ m \<le> int N" and "int N < 2 ^ (m + 1)"
proof -
  have "int (2 ^ m) \<le> int N"
    using assms(1) by (simp only: of_nat_le_iff)
  then show "(2::int) ^ m \<le> int N"
    by simp
  have "int N < int (2 ^ Suc m)"
    using assms(2) by (simp only: of_nat_less_iff)
  then show "int N < 2 ^ (m + 1)"
    by simp
qed

lemma msb_pos_bit:
  fixes n :: go_int
  assumes "1 \<le>s n"
  shows "bit n (msb_pos (unat n))" and "bit n j \<Longrightarrow> j \<le> msb_pos (unat n)"
proof -
  let ?N = "unat n" and ?m = "msb_pos (unat n)"
  have pos: "0 < ?N"
    by (rule pos_sint(2) [OF assms])
  have lo: "2 ^ ?m \<le> ?N" and hi: "?N < 2 ^ Suc ?m"
    using msb_pos_bounds [OF pos] by simp_all
  have "?N div 2 ^ ?m = 1"
  proof -
    have "?N div 2 ^ ?m < 2"
      using hi by (simp add: less_mult_imp_div_less mult.commute)
    moreover have "0 < ?N div 2 ^ ?m"
      using lo by (simp add: div_greater_zero_iff)
    ultimately show ?thesis
      by linarith
  qed
  then have "bit ?N ?m"
    by (simp add: bit_iff_odd)
  then show "bit n ?m"
    by (simp add: bit_unsigned_iff)
  assume "bit n j"
  then have "bit ?N j"
    by (simp add: bit_unsigned_iff)
  then have "odd (?N div 2 ^ j)"
    by (simp add: bit_iff_odd)
  then have "?N div 2 ^ j \<noteq> 0"
    using odd_pos by auto
  then have "2 ^ j \<le> ?N"
    by (simp add: div_eq_0_iff)
  with hi have "(2::nat) ^ j < 2 ^ Suc ?m"
    by linarith
  then have "j < Suc ?m"
    using power_strict_increasing_iff [of "2::nat" j "Suc ?m"] by simp
  then show "j \<le> ?m"
    by simp
qed

text \<open>
  C9: for every \<open>n \<ge> 1\<close>, \<open>log2 n\<close> returns \<open>floor(log2(n))\<close>: the value \<open>b\<close>
  with \<open>2 ^ b \<le> n < 2 ^ (b + 1)\<close>, which is the position, counted from 0, of the most
  significant set bit of \<open>n\<close>.
\<close>

theorem log2_floor:
  fixes n :: go_int
  assumes "1 \<le>s n"
  shows "\<exists>b. log2 n = Some b
    \<and> sint b = \<lfloor>log 2 (real_of_int (sint n))\<rfloor>
    \<and> 2 ^ nat (sint b) \<le> sint n \<and> sint n < 2 ^ (nat (sint b) + 1)
    \<and> bit n (nat (sint b)) \<and> (\<forall>j. bit n j \<longrightarrow> j \<le> nat (sint b))"
proof -
  let ?N = "unat n" and ?m = "msb_pos (unat n)"
  have pos: "0 < ?N"
    by (rule pos_sint(2) [OF assms])
  have sn: "sint n = int ?N"
    by (rule pos_sint(1) [OF assms])
  have m: "?m < 2 ^ 63"
    using msb_pos_less [OF assms] by simp
  have sb: "sint (word_of_nat ?m :: go_int) = int ?m"
    by (rule sint_of_nat_small [OF m])
  have fl: "int ?m = \<lfloor>log 2 (real_of_int (sint n))\<rfloor>"
    unfolding sn using msb_pos_floor [OF pos] by (simp only: of_int_of_nat_eq)
  have lo: "(2::int) ^ ?m \<le> sint n" and hi: "sint n < 2 ^ (?m + 1)"
    unfolding sn by (rule int_pow_bounds [OF msb_pos_bounds [OF pos]])+
  have nb: "nat (sint (word_of_nat ?m :: go_int)) = ?m"
    by (simp only: sb nat_int)
  show ?thesis
  proof (intro exI conjI allI impI)
    show "log2 n = Some (word_of_nat ?m)"
      by (rule log2_pos [OF assms])
    show "sint (word_of_nat ?m :: go_int) = \<lfloor>log 2 (real_of_int (sint n))\<rfloor>"
      unfolding sb by (rule fl)
    show "2 ^ nat (sint (word_of_nat ?m :: go_int)) \<le> sint n"
      unfolding nb by (rule lo)
    show "sint n < 2 ^ (nat (sint (word_of_nat ?m :: go_int)) + 1)"
      unfolding nb by (rule hi)
    show "bit n (nat (sint (word_of_nat ?m :: go_int)))"
      unfolding nb by (rule msb_pos_bit(1) [OF assms])
    show "j \<le> nat (sint (word_of_nat ?m :: go_int))" if "bit n j" for j
      unfolding nb using that by (rule msb_pos_bit(2) [OF assms])
  qed
qed

theorem log2_floor_witness:
  "(1 :: go_int) \<le>s 5 \<and> (\<exists>b. log2 5 = Some b
    \<and> sint b = \<lfloor>log 2 (real_of_int (sint (5 :: go_int)))\<rfloor>
    \<and> 2 ^ nat (sint b) \<le> sint (5 :: go_int) \<and> sint (5 :: go_int) < 2 ^ (nat (sint b) + 1)
    \<and> bit (5 :: go_int) (nat (sint b)) \<and> (\<forall>j. bit (5 :: go_int) j \<longrightarrow> j \<le> nat (sint b)))"
proof -
  have h: "(1 :: go_int) \<le>s 5"
    by (simp add: word_sle_eq)
  show ?thesis
    using h log2_floor [OF h] by blast
qed

section \<open>The linear series evaluator against its specification\<close>

text \<open>
  C7: for every \<open>n \<ge> 1\<close>, \<open>fibSeries n\<close> is the first component of the pair obtained
  from \<open>(0, 1)\<close> by \<open>n\<close> replacements of \<open>(a, b)\<close> by \<open>(b, a + b)\<close>, and this
  value is \<open>F(n)\<close>.
\<close>

theorem fibSeries_iterates:
  fixes n :: go_int
  assumes "1 \<le>s n"
  shows "fibSeries n = series_spec (nat (sint n)) \<and> fibSeries n = F_spec (nat (sint n))"
  using fibSeries_series_spec [OF assms] by (simp add: series_spec_F)

theorem fibSeries_iterates_witness:
  "(1 :: go_int) \<le>s 7 \<and> fibSeries 7 = series_spec (nat (sint (7 :: go_int)))
     \<and> fibSeries 7 = F_spec (nat (sint (7 :: go_int)))"
proof -
  have h: "(1 :: go_int) \<le>s 7"
    by (simp add: word_sle_eq)
  show ?thesis
    using h fibSeries_iterates [OF h] by blast
qed

section \<open>The dispatcher computes the Fibonacci numbers\<close>

text \<open>
  C1: for every \<open>n \<ge> 0\<close>, \<open>Fibonacci n\<close> returns the Fibonacci number \<open>F(n)\<close>
  of the specification, as an exact integer; and for every \<open>n \<ge> 2\<close> the results
  satisfy \<open>Fibonacci n = Fibonacci (n - 1) + Fibonacci (n - 2)\<close>, whichever of the four
  strategies computes each of the three.
\<close>

theorem Fibonacci_exact:
  "(0 \<le>s n \<longrightarrow> Fibonacci n = Some (F_spec (nat (sint n)))) \<and>
   (2 \<le>s n \<longrightarrow> (\<exists>a b c. Fibonacci n = Some a \<and> Fibonacci (n - 1) = Some b
      \<and> Fibonacci (n - 2) = Some c \<and> a = b + c))"
proof (intro conjI impI)
  assume "0 \<le>s n"
  then show "Fibonacci n = Some (F_spec (nat (sint n)))"
    by (rule Fibonacci_F)
next
  assume "2 \<le>s n"
  then have s: "2 \<le> sint n"
    by (simp add: word_sle_eq)
  have s1: "sint (n - 1) = sint n - 1"
    using sint_minus_small [of n 1] s by simp
  have s2: "sint (n - 2) = sint n - 2"
    using sint_minus_small [of n 2] s by simp
  define k where "k = nat (sint n - 2)"
  have k0: "nat (sint n) = Suc (Suc k)"
    unfolding k_def using s by linarith
  have k1: "nat (sint (n - 1)) = Suc k"
    unfolding k_def s1 using s by linarith
  have k2: "nat (sint (n - 2)) = k"
    unfolding k_def s2 ..
  have p0: "0 \<le>s n" and p1: "0 \<le>s n - 1" and p2: "0 \<le>s n - 2"
    using s by (simp_all add: word_sle_eq s1 s2)
  have "Fibonacci n = Some (F_spec (Suc (Suc k)))"
    using Fibonacci_F [OF p0] by (simp only: k0)
  moreover have "Fibonacci (n - 1) = Some (F_spec (Suc k))"
    using Fibonacci_F [OF p1] by (simp only: k1)
  moreover have "Fibonacci (n - 2) = Some (F_spec k)"
    using Fibonacci_F [OF p2] by (simp only: k2)
  ultimately show "\<exists>a b c. Fibonacci n = Some a \<and> Fibonacci (n - 1) = Some b
      \<and> Fibonacci (n - 2) = Some c \<and> a = b + c"
    by simp
qed

theorem Fibonacci_exact_witness:
  "((0 :: go_int) \<le>s 3000 \<and> Fibonacci 3000 = Some (F_spec (nat (sint (3000 :: go_int))))) \<and>
   ((2 :: go_int) \<le>s 3000 \<and> (\<exists>a b c. Fibonacci 3000 = Some a \<and> Fibonacci (3000 - 1) = Some b
      \<and> Fibonacci (3000 - 2) = Some c \<and> a = b + c))"
proof -
  have h0: "(0 :: go_int) \<le>s 3000" and h2: "(2 :: go_int) \<le>s 3000"
    by (simp_all add: word_sle_eq)
  show ?thesis
    using h0 h2 Fibonacci_exact [of 3000] by blast
qed

section \<open>The evaluators agree\<close>

text \<open>
  C2: for every \<open>n \<ge> 1\<close> the three evaluators return the same value,
  \<open>fibSeries n = fibBlenkinsop n = fibTakahashi n\<close>; at \<open>n = 100\<close> this value is
  354224848179261915075, and \<open>fibBlenkinsop\<close> and \<open>fibTakahashi\<close> agree at
  \<open>n = 5504\<close> and \<open>n = 5505\<close>.
\<close>

theorem evaluators_agree_everywhere:
  "(1 \<le>s n \<longrightarrow> fibBlenkinsop n = Some (fibSeries n) \<and> fibTakahashi n = Some (fibSeries n)) \<and>
   fibSeries 100 = 354224848179261915075 \<and>
   fibBlenkinsop 100 = Some 354224848179261915075 \<and>
   fibTakahashi 100 = Some 354224848179261915075 \<and>
   fibBlenkinsop 5504 = Some (fibSeries 5504) \<and> fibTakahashi 5504 = Some (fibSeries 5504) \<and>
   fibBlenkinsop 5505 = Some (fibSeries 5505) \<and> fibTakahashi 5505 = Some (fibSeries 5505)"
proof -
  have h: "(1 :: go_int) \<le>s 100" "(1 :: go_int) \<le>s 5504" "(1 :: go_int) \<le>s 5505"
    by (simp_all add: word_sle_eq)
  have s: "fibSeries 100 = 354224848179261915075"
    using evaluators_agree(1) [OF h(1)] by (simp only: fibBlenkinsop_100 option.inject)
  have t: "fibTakahashi 100 = Some 354224848179261915075"
    using evaluators_agree(2) [OF h(1)] by (simp only: s)
  show ?thesis
    using evaluators_agree [OF h(2)] evaluators_agree [OF h(3)] s t fibBlenkinsop_100
      evaluators_agree [of n]
    by blast
qed

theorem evaluators_agree_everywhere_witness:
  "(1 :: go_int) \<le>s 3000 \<and> fibBlenkinsop 3000 = Some (fibSeries 3000)
     \<and> fibTakahashi 3000 = Some (fibSeries 3000)"
proof -
  have h: "(1 :: go_int) \<le>s 3000"
    by (simp add: word_sle_eq)
  show ?thesis
    using h evaluators_agree_everywhere [of 3000] by blast
qed

section \<open>Indices below one\<close>

text \<open>
  C4: for every \<open>n < 1\<close>, the negative ones included, \<open>Fibonacci n\<close> returns 0; and
  \<open>Fibonacci\<close> returns a value on every input, so no input produces a failure.
\<close>

theorem Fibonacci_clamps:
  "(n <s 1 \<longrightarrow> Fibonacci n = Some 0) \<and> (\<exists>v. Fibonacci n = Some v)"
  using Fibonacci_total [of n] by (simp add: Fibonacci_def)

theorem Fibonacci_clamps_witness:
  "(- 5 :: go_int) <s 1 \<and> Fibonacci (- 5) = Some 0"
proof -
  have h: "(- 5 :: go_int) <s 1"
    by (simp add: word_sless_alt)
  show ?thesis
    using h Fibonacci_clamps [of "- 5"] by blast
qed

section \<open>The small-value table\<close>

text \<open>
  C5: the table has exactly 93 entries of type \<open>int64\<close>, its entry at position \<open>i\<close>
  is \<open>F(i)\<close> for every \<open>0 \<le> i \<le> 92\<close>, and \<open>Fibonacci\<close> returns that entry for
  those indices; in particular \<open>Fibonacci 10 = 55\<close>, \<open>Fibonacci 50 = 12586269025\<close>
  and \<open>Fibonacci 92 = 7540113804746346429\<close>.
\<close>

theorem fibonacciTable_exact:
  "length fibonacciTable = 93 \<and>
   (\<forall>i\<le>92. sint (fibonacciTable ! i) = F_spec i) \<and>
   (0 \<le>s n \<and> n \<le>s 92 \<longrightarrow> Fibonacci n = Some (sint (fibonacciTable ! unat n))) \<and>
   Fibonacci 10 = Some 55 \<and> Fibonacci 50 = Some 12586269025 \<and>
   Fibonacci 92 = Some 7540113804746346429"
proof (intro conjI allI impI)
  show "length fibonacciTable = 93"
    by (rule length_fibonacciTable)
  show "sint (fibonacciTable ! i) = F_spec i" if "i \<le> 92" for i
    using that by (intro table_nth) simp
  show "Fibonacci n = Some (sint (fibonacciTable ! unat n))" if "0 \<le>s n \<and> n \<le>s 92"
  proof (cases "n <s 1")
    case True
    with that have "sint n = 0"
      by (simp add: word_sle_eq word_sless_alt)
    then have "n = 0"
      by (simp add: signed_eq_0_iff)
    then show ?thesis
      by (simp add: Fibonacci_def fibonacciTable_def word_sless_alt)
  next
    case False
    with that show ?thesis
      by (simp add: Fibonacci_def length_fibonacciTable word_sle_eq word_sless_alt)
  qed
qed (rule Fibonacci_table_values)+

theorem fibonacciTable_exact_witness:
  "(92 :: nat) \<le> 92 \<and> sint (fibonacciTable ! 92) = F_spec 92 \<and>
   (0 :: go_int) \<le>s 92 \<and> (92 :: go_int) \<le>s 92 \<and>
   Fibonacci 92 = Some (sint (fibonacciTable ! unat (92 :: go_int)))"
proof -
  have h: "(0 :: go_int) \<le>s 92 \<and> (92 :: go_int) \<le>s 92"
    by (simp add: word_sle_eq)
  show ?thesis
    using h fibonacciTable_exact [of 92] by blast
qed

section \<open>The running pair of the bit-scanning identity evaluator\<close>

text \<open>
  C6 as stated does not hold: the running pair is not \<open>(F(k), F(k+1))\<close> for the prefix
  \<open>k\<close> of the bits of \<open>n\<close>, and the first component is not the result. At \<open>n = 3\<close>
  (binary 11, \<open>log2 3 = 1\<close>) the loop ends with \<open>(f1, f2) = (1, 2)\<close>: \<open>f1\<close> is
  \<open>F(2)\<close>, not \<open>F(3) = 2\<close>; the pair is not \<open>(F(3), F(4)) = (2, 3)\<close>, which the
  prefix \<open>k = 3\<close> would give, nor \<open>(F(1), F(2)) = (1, 1)\<close>, which the prefix without
  its leading bit, \<open>k = 1\<close>, would give.
\<close>

theorem blenk_pair_counterexample:
  "log2 3 = Some 1 \<and> blenk_loop 3 (1, 0, 1, 0) = (0, 1, 2, 1) \<and>
   fst (snd (blenk_loop 3 (1, 0, 1, 0))) \<noteq> F_spec 3 \<and>
   (fst (snd (blenk_loop 3 (1, 0, 1, 0))), fst (snd (snd (blenk_loop 3 (1, 0, 1, 0)))))
     \<noteq> (F_spec 3, F_spec (3 + 1)) \<and>
   (fst (snd (blenk_loop 3 (1, 0, 1, 0))), fst (snd (snd (blenk_loop 3 (1, 0, 1, 0)))))
     \<noteq> (F_spec 1, F_spec (1 + 1))"
proof -
  have l: "log2 3 = Some 1"
    by (simp add: log2_def log2_loop.simps)
  have b: "blenk_loop 3 (1, 0, 1, 0) = (0, 1, 2, 1)"
    by (simp add: blenk_loop.simps blenk_body_def)
  have f: "F_spec 3 = 2" "F_spec 1 = 1" "F_spec (1 + 1) = 1"
    by (simp_all add: eval_nat_numeral)
  show ?thesis
    unfolding b by (simp add: l f)
qed

text \<open>
  C6, amended: for every \<open>n \<ge> 1\<close>, with \<open>h = log2 n\<close>, after \<open>j\<close> turns of the
  loop (\<open>0 \<le> j \<le> h\<close>) the running pair \<open>(f1, f2)\<close> is \<open>(F(k - 1), F(k))\<close>, where
  \<open>k = n >> (h - j)\<close> is the prefix of the bits of \<open>n\<close> consumed so far, the leading
  bit included. It starts from \<open>(F(0), F(1)) = (0, 1)\<close> with \<open>k = 1\<close>. The loop makes
  exactly \<open>h\<close> turns; after them \<open>k = n\<close>, the evaluator returns \<open>f2 = F(n)\<close>, and
  \<open>f1\<close> is \<open>F(n - 1)\<close>.
\<close>

theorem blenk_pair_invariant:
  fixes n :: go_int
  assumes "1 \<le>s n"
  shows "\<exists>h. log2 n = Some h \<and>
    (\<forall>j\<le>unat h. \<exists>f3. (blenk_step n ^^ j) (h, 0, 1, 0)
        = (h - word_of_nat j,
           F_spec (unat (drop_bit (unat h - j) n) - 1),
           F_spec (unat (drop_bit (unat h - j) n)), f3)) \<and>
    unat (drop_bit (unat h) n) = 1 \<and>
    blenk_loop n (h, 0, 1, 0) = (blenk_step n ^^ unat h) (h, 0, 1, 0) \<and>
    fst (snd (blenk_loop n (h, 0, 1, 0))) = F_spec (unat n - 1) \<and>
    fst (snd (snd (blenk_loop n (h, 0, 1, 0)))) = F_spec (unat n) \<and>
    fibBlenkinsop n = Some (F_spec (unat n))"
proof -
  let ?m = "msb_pos (unat n)"
  let ?h = "word_of_nat ?m :: go_int"
  have um: "unat ?h = ?m"
    using msb_pos_less [OF assms] unat_of_nat_small [of ?m] by simp
  have db: "unat (drop_bit e n) = unat n div 2 ^ e" for e
  proof -
    have "unat (drop_bit e n) = drop_bit e (unat n)"
      by (rule unat_drop_bit_eq)
    also have "\<dots> = unat n div 2 ^ e"
      by (rule drop_bit_eq_div)
    finally show ?thesis .
  qed
  have steps: "\<exists>f3. (blenk_step n ^^ j) (?h, 0, 1, 0)
        = (?h - word_of_nat j,
           F_spec (unat (drop_bit (unat ?h - j) n) - 1),
           F_spec (unat (drop_bit (unat ?h - j) n)), f3)" if "j \<le> unat ?h" for j
  proof -
    from that have j: "j \<le> ?m"
      by (simp only: um)
    then have "(word_of_nat (?m - j) :: go_int) = ?h - word_of_nat j"
      by (simp add: of_nat_diff)
    then show ?thesis
      using blenk_steps_inv [OF assms j] unfolding um db by simp
  qed
  from steps [of "unat ?h"] obtain f3 where
    fin: "(blenk_step n ^^ unat ?h) (?h, 0, 1, 0) = (0, F_spec (unat n - 1), F_spec (unat n), f3)"
    by (auto simp add: um)
  have lp: "blenk_loop n (?h, 0, 1, 0) = (blenk_step n ^^ unat ?h) (?h, 0, 1, 0)"
    using blenk_loop_funpow [of n "(?h, 0, 1, 0)"] by simp
  show ?thesis
  proof (intro exI [of _ ?h] conjI allI impI)
    show "log2 n = Some ?h"
      by (rule log2_pos [OF assms])
    show "unat (drop_bit (unat ?h) n) = 1"
      unfolding um db by (rule div_top [OF pos_sint(2) [OF assms]])
    show "blenk_loop n (?h, 0, 1, 0) = (blenk_step n ^^ unat ?h) (?h, 0, 1, 0)"
      by (rule lp)
    show "fst (snd (blenk_loop n (?h, 0, 1, 0))) = F_spec (unat n - 1)"
      unfolding lp fin by simp
    show "fst (snd (snd (blenk_loop n (?h, 0, 1, 0)))) = F_spec (unat n)"
      unfolding lp fin by simp
    show "fibBlenkinsop n = Some (F_spec (unat n))"
      by (rule fibBlenkinsop_F [OF assms])
  qed (rule steps)
qed

theorem blenk_pair_invariant_witness:
  "(1 :: go_int) \<le>s 100 \<and> (\<exists>h. log2 (100 :: go_int) = Some h \<and>
    (\<forall>j\<le>unat h. \<exists>f3. (blenk_step 100 ^^ j) (h, 0, 1, 0)
        = (h - word_of_nat j,
           F_spec (unat (drop_bit (unat h - j) (100 :: go_int)) - 1),
           F_spec (unat (drop_bit (unat h - j) (100 :: go_int))), f3)) \<and>
    unat (drop_bit (unat h) (100 :: go_int)) = 1 \<and>
    blenk_loop 100 (h, 0, 1, 0) = (blenk_step 100 ^^ unat h) (h, 0, 1, 0) \<and>
    fst (snd (blenk_loop 100 (h, 0, 1, 0))) = F_spec (unat (100 :: go_int) - 1) \<and>
    fst (snd (snd (blenk_loop 100 (h, 0, 1, 0)))) = F_spec (unat (100 :: go_int)) \<and>
    fibBlenkinsop 100 = Some (F_spec (unat (100 :: go_int))))"
proof -
  have h: "(1 :: go_int) \<le>s 100"
    by (simp add: word_sle_eq)
  show ?thesis
    using h blenk_pair_invariant [OF h] by (rule conjI)
qed

section \<open>Termination\<close>

text \<open>
  C10: \<open>Fibonacci n\<close> terminates for every \<open>n\<close>, positive, zero or negative, and so do
  \<open>fibBlenkinsop\<close> and \<open>fibTakahashi\<close>. The loop of \<open>log2\<close> terminates for every
  argument \<open>\<ge> 1\<close> and does not terminate for a negative argument. The helper is
  called with arguments \<open>\<ge> 1\<close> only: the results of the two evaluators do not depend
  on what the helper does below 1, and the result of the dispatcher does not depend on
  what it does below 93. On a negative \<open>n\<close> both evaluators return 0 although
  \<open>log2 n\<close> diverges, so their guards are what keeps every call path terminating.
\<close>

theorem Fibonacci_terminates:
  "(\<exists>v. Fibonacci n = Some v) \<and>
   (1 \<le>s n \<longrightarrow> (\<exists>b. log2 n = Some b)) \<and>
   (n <s 0 \<longrightarrow> log2 n = None \<and> fibBlenkinsop n = Some 0 \<and> fibTakahashi n = Some 0) \<and>
   (\<exists>v. fibBlenkinsop n = Some v) \<and> (\<exists>v. fibTakahashi n = Some v) \<and>
   Fibonacci_with log2 n = Fibonacci n \<and>
   fibBlenkinsop_with log2 n = fibBlenkinsop n \<and>
   fibTakahashi_with log2 n = fibTakahashi n \<and>
   ((\<forall>m. 93 \<le>s m \<longrightarrow> lg m = log2 m) \<longrightarrow> Fibonacci_with lg n = Fibonacci n) \<and>
   ((\<forall>m. 1 \<le>s m \<longrightarrow> lg m = log2 m) \<longrightarrow>
      fibBlenkinsop_with lg n = fibBlenkinsop n \<and> fibTakahashi_with lg n = fibTakahashi n)"
proof (intro conjI impI)
  show "\<exists>v. Fibonacci n = Some v"
    by (rule Fibonacci_total)
  show "\<exists>b. log2 n = Some b" if "1 \<le>s n"
    using log2_pos [OF that] by simp
  show "log2 n = None" if "n <s 0"
    unfolding log2_def using that by (rule log2_neg_loop)
  show "fibBlenkinsop n = Some 0" if "n <s 0"
    using that by (simp add: fibBlenkinsop_def word_sless_alt)
  show "fibTakahashi n = Some 0" if "n <s 0"
    using that by (simp add: fibTakahashi_def word_sless_alt word_sle_eq)
  show "\<exists>v. fibBlenkinsop n = Some v" and "\<exists>v. fibTakahashi n = Some v"
    by (rule evaluators_total)+
  show "Fibonacci_with log2 n = Fibonacci n"
    and "fibBlenkinsop_with log2 n = fibBlenkinsop n"
    and "fibTakahashi_with log2 n = fibTakahashi n"
    by (rule with_log2)+
  show "Fibonacci_with lg n = Fibonacci n" if "\<forall>m. 93 \<le>s m \<longrightarrow> lg m = log2 m"
    using Fibonacci_with_cong [of lg log2 n] that by (simp add: with_log2)
  show "fibBlenkinsop_with lg n = fibBlenkinsop n" if "\<forall>m. 1 \<le>s m \<longrightarrow> lg m = log2 m"
    using evaluators_with_cong(1) [of lg log2 n] that by (simp add: with_log2)
  show "fibTakahashi_with lg n = fibTakahashi n" if "\<forall>m. 1 \<le>s m \<longrightarrow> lg m = log2 m"
    using evaluators_with_cong(2) [of lg log2 n] that by (simp add: with_log2)
qed

theorem Fibonacci_terminates_witness:
  "((- 5 :: go_int) <s 0 \<and> log2 (- 5) = None \<and> fibBlenkinsop (- 5) = Some 0
      \<and> fibTakahashi (- 5) = Some 0 \<and> (\<exists>v. Fibonacci (- 5) = Some v)) \<and>
   ((1 :: go_int) \<le>s 5 \<and> (\<exists>b. log2 5 = Some b)) \<and>
   Fibonacci_with (\<lambda>m. if 93 \<le>s m then log2 m else None) 3000 = Fibonacci 3000 \<and>
   fibBlenkinsop_with (\<lambda>m. if 1 \<le>s m then log2 m else None) 3000 = fibBlenkinsop 3000 \<and>
   fibTakahashi_with (\<lambda>m. if 1 \<le>s m then log2 m else None) 3000 = fibTakahashi 3000"
proof -
  have h1: "(- 5 :: go_int) <s 0"
    by (simp add: word_sless_alt)
  have h2: "(1 :: go_int) \<le>s 5"
    by (simp add: word_sle_eq)
  have h3: "\<forall>m. 93 \<le>s m \<longrightarrow> (if 93 \<le>s m then log2 m else None) = log2 m"
    by simp
  have h4: "\<forall>m. 1 \<le>s m \<longrightarrow> (if 1 \<le>s m then log2 m else None) = log2 m"
    by simp
  show ?thesis
    using h1 h2 h3 h4 Fibonacci_terminates [of "- 5" log2] Fibonacci_terminates [of 5 log2]
      Fibonacci_terminates [of 3000 "\<lambda>m. if 93 \<le>s m then log2 m else None"]
      Fibonacci_terminates [of 3000 "\<lambda>m. if 1 \<le>s m then log2 m else None"]
    by blast
qed

end
